theory Spec2Isabelle
  imports Main
begin

section \<open>Token sets\<close>

text \<open>
  Modelled from the spec: the reserved token identifiers used by \<^verbatim>\<open>atn.go\<close>
  (\<^verbatim>\<open>TokenEpsilon\<close>, \<^verbatim>\<open>TokenEOF\<close>) are declared outside \<^verbatim>\<open>atn.go\<close>. The spec calls
  them the epsilon marker and the end-of-input marker; the runtime numbers them -2 and -1.
\<close>

definition TokenEpsilon :: int where
  "TokenEpsilon = - 2"

definition TokenEOF :: int where
  "TokenEOF = - 1"

text \<open>
  Modelled from the spec: \<^verbatim>\<open>IntervalSet\<close> is declared outside \<^verbatim>\<open>atn.go\<close>. The spec
  treats it as an opaque set of integer token identifiers supporting union in place,
  add-single, remove-single and membership; \<^verbatim>\<open>atn.go\<close> itself writes its
  \<^verbatim>\<open>readOnly\<close> field. The ranges are kept as the set of integers they cover.
\<close>

record IntervalSet =
  intervals :: "int set"
  readOnly :: bool

definition NewIntervalSet :: IntervalSet where
  "NewIntervalSet = \<lparr>intervals = {}, readOnly = False\<rparr>"

definition addSet :: "IntervalSet \<Rightarrow> IntervalSet \<Rightarrow> IntervalSet" where
  "addSet i other = i\<lparr>intervals := intervals i \<union> intervals other\<rparr>"

definition removeOne :: "IntervalSet \<Rightarrow> int \<Rightarrow> IntervalSet" where
  "removeOne i v = i\<lparr>intervals := intervals i - {v}\<rparr>"

definition AddOne :: "IntervalSet \<Rightarrow> int \<Rightarrow> IntervalSet" where
  "AddOne i v = i\<lparr>intervals := insert v (intervals i)\<rparr>"

definition Contains :: "IntervalSet \<Rightarrow> int \<Rightarrow> bool" where
  "Contains i item = (item \<in> intervals i)"

section \<open>States, transitions, contexts and the graph\<close>

text \<open>
  State objects are shared by reference (the graph's slice, the decision table and the
  transitions all point at them), so they live in an explicit store and are named by
  addresses. A Go interface value that may be \<^verbatim>\<open>nil\<close> is an \<open>option\<close>.
\<close>

type_synonym state_ref = nat

text \<open>
  Only the rule transition carries the \<^verbatim>\<open>followState\<close> that \<^verbatim>\<open>getExpectedTokens\<close>
  reads; every other kind of transition fails the type assertion \<^verbatim>\<open>rt.(*RuleTransition)\<close>.
\<close>

datatype Transition =
    RuleTransition (followState: "state_ref option")
  | OtherTransition

text \<open>
  The fields of a state object that \<^verbatim>\<open>atn.go\<close> reads or writes through the
  \<^verbatim>\<open>ATNState\<close> and \<^verbatim>\<open>DecisionState\<close> interfaces. \<open>atnSet\<close> records that
  \<^verbatim>\<open>SetATN\<close> has stored the back pointer to the graph.
\<close>

record ATNState =
  stateNumber :: int
  atnSet :: bool
  nextTokenWithinRule :: "IntervalSet option"
  transitions :: "Transition list"
  decision :: int

text \<open>
  A link of the invocation chain: its invoking state and its parent. The parent is what
  \<^verbatim>\<open>GetParent()\<close> returns, \<open>None\<close> for a \<^verbatim>\<open>nil\<close> interface value.
\<close>

datatype RuleContext =
  RuleContext (GetInvokingState: int) (GetParent: "RuleContext option")

record ATN =
  DecisionToState :: "state_ref option list"
  grammarType :: int
  lexerActions :: "nat list"
  maxTokenType :: int
  modeNameToStartState :: "string \<rightharpoonup> state_ref"
  modeToStartState :: "state_ref option list"
  ruleToStartState :: "state_ref option list"
  ruleToStopState :: "state_ref option list"
  ruleToTokenType :: "int list"
  states :: "state_ref option list"

text \<open>
  The program state: the package-level variable \<^verbatim>\<open>ATNInvalidAltNumber\<close>, the graph
  and the state objects. The mutexes of the graph are left out: calls are run one after
  another.
\<close>

record store =
  ATNInvalidAltNumber :: int
  atn :: ATN
  heap :: "state_ref \<Rightarrow> ATNState"

datatype panic =
    InvalidStateNumber
  | IndexOutOfRange
  | NilDereference
  | InterfaceConversion
  | AnalyzerPanic

text \<open>Indexing a Go slice panics outside \<open>0 \<le> i < len\<close>.\<close>

definition index :: "'a list \<Rightarrow> int \<Rightarrow> panic + 'a" where
  "index xs i = (if 0 \<le> i \<and> i < int (length xs) then Inr (xs ! nat i) else Inl IndexOutOfRange)"

definition NewATN :: "int \<Rightarrow> int \<Rightarrow> ATN" where
  "NewATN gt mtt =
     \<lparr>DecisionToState = [], grammarType = gt, lexerActions = [], maxTokenType = mtt,
      modeNameToStartState = Map.empty, modeToStartState = [], ruleToStartState = [],
      ruleToStopState = [], ruleToTokenType = [], states = []\<rparr>"

section \<open>The reachability engine\<close>

text \<open>
  Modelled from the spec: the Lookahead Analyzer (\<^verbatim>\<open>NewLL1Analyzer(a).Look(s, nil, ctx)\<close>)
  is declared outside \<^verbatim>\<open>atn.go\<close>. The spec describes it as returning, for a state and an
  optional context of the fixed graph, the set of reachable token identifiers; it is a
  parameter here, \<open>None\<close> when the analyzer itself panics.
\<close>

type_synonym analyzer = "state_ref option \<Rightarrow> RuleContext option \<Rightarrow> IntervalSet option"

definition NextTokensInContext ::
  "analyzer \<Rightarrow> state_ref option \<Rightarrow> RuleContext option \<Rightarrow> store \<Rightarrow> panic + (IntervalSet \<times> store)" where
  "NextTokensInContext look s ctx \<sigma> =
     (case look s ctx of
        None \<Rightarrow> Inl AnalyzerPanic
      | Some iset \<Rightarrow> Inr (iset, \<sigma>))"

definition SetNextTokenWithinRule :: "state_ref \<Rightarrow> IntervalSet \<Rightarrow> store \<Rightarrow> store" where
  "SetNextTokenWithinRule r iset \<sigma> =
     \<sigma>\<lparr>heap := (heap \<sigma>)(r := (heap \<sigma> r)\<lparr>nextTokenWithinRule := Some iset\<rparr>)\<rparr>"

definition NextTokensNoContext ::
  "analyzer \<Rightarrow> state_ref option \<Rightarrow> store \<Rightarrow> panic + (IntervalSet \<times> store)" where
  "NextTokensNoContext look s \<sigma> =
     (case s of
        None \<Rightarrow> Inl NilDereference
      | Some r \<Rightarrow>
          (case nextTokenWithinRule (heap \<sigma> r) of
             Some iset \<Rightarrow> Inr (iset, \<sigma>)
           | None \<Rightarrow>
               (case NextTokensInContext look s None \<sigma> of
                  Inl e \<Rightarrow> Inl e
                | Inr (iset, \<sigma>') \<Rightarrow>
                    Inr (iset\<lparr>readOnly := True\<rparr>,
                         SetNextTokenWithinRule r (iset\<lparr>readOnly := True\<rparr>) \<sigma>'))))"

definition NextTokens ::
  "analyzer \<Rightarrow> state_ref option \<Rightarrow> RuleContext option \<Rightarrow> store \<Rightarrow> panic + (IntervalSet \<times> store)" where
  "NextTokens look s ctx \<sigma> =
     (if ctx = None then NextTokensNoContext look s \<sigma>
      else NextTokensInContext look s ctx \<sigma>)"

section \<open>Graph construction\<close>

definition addState :: "state_ref option \<Rightarrow> store \<Rightarrow> store" where
  "addState state \<sigma> =
     (let \<sigma>1 = (case state of
                   None \<Rightarrow> \<sigma>
                 | Some r \<Rightarrow>
                     \<sigma>\<lparr>heap := (heap \<sigma>)(r := (heap \<sigma> r)
                          \<lparr>stateNumber := int (length (states (atn \<sigma>))), atnSet := True\<rparr>)\<rparr>)
      in \<sigma>1\<lparr>atn := (atn \<sigma>1)\<lparr>states := states (atn \<sigma>1) @ [state]\<rparr>\<rparr>)"

definition removeState :: "state_ref option \<Rightarrow> store \<Rightarrow> panic + store" where
  "removeState state \<sigma> =
     (case state of
        None \<Rightarrow> Inl NilDereference
      | Some r \<Rightarrow>
          (let k = stateNumber (heap \<sigma> r) in
           if 0 \<le> k \<and> k < int (length (states (atn \<sigma>)))
           then Inr (\<sigma>\<lparr>atn := (atn \<sigma>)\<lparr>states := (states (atn \<sigma>))[nat k := None]\<rparr>\<rparr>)
           else Inl IndexOutOfRange))"

definition defineDecisionState :: "state_ref option \<Rightarrow> store \<Rightarrow> panic + (int \<times> store)" where
  "defineDecisionState s \<sigma> =
     (let \<sigma>1 = \<sigma>\<lparr>atn := (atn \<sigma>)\<lparr>DecisionToState := DecisionToState (atn \<sigma>) @ [s]\<rparr>\<rparr> in
      case s of
        None \<Rightarrow> Inl NilDereference
      | Some r \<Rightarrow>
          (let \<sigma>2 = \<sigma>1\<lparr>heap := (heap \<sigma>1)(r := (heap \<sigma>1 r)
                        \<lparr>decision := int (length (DecisionToState (atn \<sigma>1))) - 1\<rparr>)\<rparr>
           in Inr (decision (heap \<sigma>2 r), \<sigma>2)))"

definition getDecisionState :: "int \<Rightarrow> store \<Rightarrow> panic + state_ref option" where
  "getDecisionState d \<sigma> =
     (if length (DecisionToState (atn \<sigma>)) = 0 then Inr None
      else index (DecisionToState (atn \<sigma>)) d)"

section \<open>Expected tokens\<close>

text \<open>
  The \<^verbatim>\<open>for\<close> loop of \<^verbatim>\<open>getExpectedTokens\<close>, with its three loop variables
  \<^verbatim>\<open>ctx\<close>, \<^verbatim>\<open>following\<close> and \<^verbatim>\<open>expected\<close>. Each step that panics in Go is a
  branch: the slice index, the method call on a \<^verbatim>\<open>nil\<close> state, the first element of an
  empty transition slice, the two type assertions.
\<close>

fun expectedLoop ::
  "analyzer \<Rightarrow> RuleContext option \<Rightarrow> IntervalSet \<Rightarrow> IntervalSet \<Rightarrow> store \<Rightarrow>
     panic + (IntervalSet \<times> IntervalSet \<times> store)" where
  "expectedLoop look None following expected \<sigma> = Inr (following, expected, \<sigma>)"
| "expectedLoop look (Some (RuleContext invokingState parent)) following expected \<sigma> =
     (if invokingState \<ge> 0 \<and> Contains following TokenEpsilon then
        (case index (states (atn \<sigma>)) invokingState of
           Inl e \<Rightarrow> Inl e
         | Inr None \<Rightarrow> Inl NilDereference
         | Inr (Some r) \<Rightarrow>
             (case transitions (heap \<sigma> r) of
                [] \<Rightarrow> Inl IndexOutOfRange
              | OtherTransition # _ \<Rightarrow> Inl InterfaceConversion
              | RuleTransition fs # _ \<Rightarrow>
                  (case NextTokens look fs None \<sigma> of
                     Inl e \<Rightarrow> Inl e
                   | Inr (following', \<sigma>') \<Rightarrow>
                       (case parent of
                          None \<Rightarrow> Inl InterfaceConversion
                        | Some p \<Rightarrow>
                            expectedLoop look (Some p) following'
                              (removeOne (addSet expected following') TokenEpsilon) \<sigma>'))))
      else Inr (following, expected, \<sigma>))"

definition getExpectedTokens ::
  "analyzer \<Rightarrow> int \<Rightarrow> RuleContext option \<Rightarrow> store \<Rightarrow> panic + (IntervalSet \<times> store)" where
  "getExpectedTokens look stateNum ctx \<sigma> =
     (if stateNum < 0 \<or> stateNum \<ge> int (length (states (atn \<sigma>))) then Inl InvalidStateNumber
      else
        (case NextTokens look (states (atn \<sigma>) ! nat stateNum) None \<sigma> of
           Inl e \<Rightarrow> Inl e
         | Inr (following, \<sigma>1) \<Rightarrow>
             if \<not> Contains following TokenEpsilon then Inr (following, \<sigma>1)
             else
               (case expectedLoop look ctx following
                       (removeOne (addSet NewIntervalSet following) TokenEpsilon) \<sigma>1 of
                  Inl e \<Rightarrow> Inl e
                | Inr (following', expected, \<sigma>2) \<Rightarrow>
                    Inr (if Contains following' TokenEpsilon then AddOne expected TokenEOF
                         else expected, \<sigma>2))))"

definition GetRuleToStartState :: "int \<Rightarrow> store \<Rightarrow> panic + state_ref option" where
  "GetRuleToStartState i \<sigma> = index (ruleToStartState (atn \<sigma>)) i"

definition GetRuleToStopState :: "int \<Rightarrow> store \<Rightarrow> panic + state_ref option" where
  "GetRuleToStopState i \<sigma> = index (ruleToStopState (atn \<sigma>)) i"

definition GetMaxTokenType :: "store \<Rightarrow> int" where
  "GetMaxTokenType \<sigma> = maxTokenType (atn \<sigma>)"

section \<open>The reference algorithm of the specification\<close>

text \<open>
  Modelled from the spec: the empty/root context marker is declared outside \<^verbatim>\<open>atn.go\<close>
  (the doc comment of \<^verbatim>\<open>getExpectedTokens\<close> names it \<^verbatim>\<open>ParserRuleContext.EMPTY\<close>). The
  spec describes the synthetic root as a context link with no valid invoking state; it has
  no parent.
\<close>

definition ParserRuleContextEmpty :: RuleContext where
  "ParserRuleContextEmpty = RuleContext (- 1) None"

definition isRootContext :: "RuleContext option \<Rightarrow> bool" where
  "isRootContext ctx = (ctx = None \<or> ctx = Some ParserRuleContextEmpty)"

text \<open>
  Step 4a of the spec's algorithm: the follow state carried by the first outgoing
  transition of the invoking state. The spec makes a malformed graph a fatal condition.
\<close>

definition followStateOf :: "store \<Rightarrow> int \<Rightarrow> panic + state_ref option" where
  "followStateOf \<sigma> k =
     (if 0 \<le> k \<and> k < int (length (states (atn \<sigma>))) then
        (case states (atn \<sigma>) ! nat k of
           None \<Rightarrow> Inl NilDereference
         | Some r \<Rightarrow>
             (case transitions (heap \<sigma> r) of
                [] \<Rightarrow> Inl IndexOutOfRange
              | t # _ \<Rightarrow>
                  (case t of
                     RuleTransition fs \<Rightarrow> Inr fs
                   | OtherTransition \<Rightarrow> Inl InterfaceConversion)))
      else Inl IndexOutOfRange)"

text \<open>
  Step 4 of the spec's algorithm, in the spec's words: the accumulator is a set of token
  identifiers; while the link is non-root, has a non-negative invoking state and the last
  \<open>following\<close> contains epsilon, recompute \<open>following\<close> at the follow state, union
  \<open>following\<close> minus epsilon into the accumulator, advance to the parent link. A link
  that is walked and has no parent link is a malformed chain, which the spec makes fatal.
\<close>

fun specLoop ::
  "analyzer \<Rightarrow> RuleContext option \<Rightarrow> IntervalSet \<Rightarrow> int set \<Rightarrow> store \<Rightarrow>
     panic + (IntervalSet \<times> int set \<times> store)" where
  "specLoop look None following acc \<sigma> = Inr (following, acc, \<sigma>)"
| "specLoop look (Some (RuleContext k parent)) following acc \<sigma> =
     (if \<not> isRootContext (Some (RuleContext k parent)) \<and> 0 \<le> k
         \<and> TokenEpsilon \<in> intervals following then
        (case followStateOf \<sigma> k of
           Inl e \<Rightarrow> Inl e
         | Inr fs \<Rightarrow>
             (case NextTokens look fs None \<sigma> of
                Inl e \<Rightarrow> Inl e
              | Inr (following', \<sigma>') \<Rightarrow>
                  (case parent of
                     None \<Rightarrow> Inl InterfaceConversion
                   | Some p \<Rightarrow>
                       specLoop look (Some p) following'
                         (acc \<union> (intervals following' - {TokenEpsilon})) \<sigma>')))
      else Inr (following, acc, \<sigma>))"

definition specGetExpectedTokens ::
  "analyzer \<Rightarrow> int \<Rightarrow> RuleContext option \<Rightarrow> store \<Rightarrow> panic + (IntervalSet \<times> store)" where
  "specGetExpectedTokens look n ctx \<sigma> =
     (if 0 \<le> n \<and> n < int (length (states (atn \<sigma>))) then
        (case NextTokens look (states (atn \<sigma>) ! nat n) None \<sigma> of
           Inl e \<Rightarrow> Inl e
         | Inr (following, \<sigma>1) \<Rightarrow>
             if TokenEpsilon \<in> intervals following then
               (case specLoop look ctx following (intervals following - {TokenEpsilon}) \<sigma>1 of
                  Inl e \<Rightarrow> Inl e
                | Inr (lastFollowing, acc, \<sigma>2) \<Rightarrow>
                    Inr (\<lparr>intervals = (if TokenEpsilon \<in> intervals lastFollowing
                                         then insert TokenEOF acc else acc),
                          readOnly = False\<rparr>, \<sigma>2))
             else Inr (following, \<sigma>1))
      else Inl InvalidStateNumber)"


text \<open>
  The graph of a store: the store with every cache cleared. Two stores with the same graph
  differ at most in the cached next-token sets of their states.
\<close>

definition eraseCaches :: "store \<Rightarrow> store" where
  "eraseCaches \<sigma> = \<sigma>\<lparr>heap := (\<lambda>r. (heap \<sigma> r)\<lparr>nextTokenWithinRule := None\<rparr>)\<rparr>"

section \<open>Sequences of calls\<close>

text \<open>The queries of \<^verbatim>\<open>atn.go\<close>: they leave the graph as it is, up to the caches.\<close>

datatype query =
    QNextTokensInContext "state_ref option" "RuleContext option"
  | QNextTokensNoContext "state_ref option"
  | QNextTokens "state_ref option" "RuleContext option"
  | QGetDecisionState int
  | QGetExpectedTokens int "RuleContext option"
  | QGetRuleToStartState int
  | QGetRuleToStopState int
  | QGetMaxTokenType

fun dropResult :: "panic + ('a \<times> store) \<Rightarrow> panic + store" where
  "dropResult (Inl e) = Inl e"
| "dropResult (Inr (x, \<sigma>)) = Inr \<sigma>"

fun keepStore :: "store \<Rightarrow> panic + 'a \<Rightarrow> panic + store" where
  "keepStore \<sigma> (Inl e) = Inl e"
| "keepStore \<sigma> (Inr x) = Inr \<sigma>"

fun runQuery :: "analyzer \<Rightarrow> query \<Rightarrow> store \<Rightarrow> panic + store" where
  "runQuery look (QNextTokensInContext s ctx) \<sigma> = dropResult (NextTokensInContext look s ctx \<sigma>)"
| "runQuery look (QNextTokensNoContext s) \<sigma> = dropResult (NextTokensNoContext look s \<sigma>)"
| "runQuery look (QNextTokens s ctx) \<sigma> = dropResult (NextTokens look s ctx \<sigma>)"
| "runQuery look (QGetDecisionState d) \<sigma> = keepStore \<sigma> (getDecisionState d \<sigma>)"
| "runQuery look (QGetExpectedTokens n ctx) \<sigma> = dropResult (getExpectedTokens look n ctx \<sigma>)"
| "runQuery look (QGetRuleToStartState i) \<sigma> = keepStore \<sigma> (GetRuleToStartState i \<sigma>)"
| "runQuery look (QGetRuleToStopState i) \<sigma> = keepStore \<sigma> (GetRuleToStopState i \<sigma>)"
| "runQuery look QGetMaxTokenType \<sigma> = Inr \<sigma>"

text \<open>Every operation \<^verbatim>\<open>atn.go\<close> offers on one graph.\<close>

datatype op =
    OpQuery query
  | OpAddState "state_ref option"
  | OpRemoveState "state_ref option"
  | OpDefineDecisionState "state_ref option"

fun runOp :: "analyzer \<Rightarrow> op \<Rightarrow> store \<Rightarrow> panic + store" where
  "runOp look (OpQuery q) \<sigma> = runQuery look q \<sigma>"
| "runOp look (OpAddState s) \<sigma> = Inr (addState s \<sigma>)"
| "runOp look (OpRemoveState s) \<sigma> = removeState s \<sigma>"
| "runOp look (OpDefineDecisionState s) \<sigma> = dropResult (defineDecisionState s \<sigma>)"

text \<open>A program also constructs graphs; the graph at hand is then the new one.\<close>

datatype action =
    Construct int int
  | Perform op

fun runAction :: "analyzer \<Rightarrow> action \<Rightarrow> store \<Rightarrow> panic + store" where
  "runAction look (Construct gt mtt) \<sigma> = Inr (\<sigma>\<lparr>atn := NewATN gt mtt\<rparr>)"
| "runAction look (Perform p) \<sigma> = runOp look p \<sigma>"

text \<open>Calls run one after another; a panic ends the run.\<close>

fun runAll :: "('a \<Rightarrow> store \<Rightarrow> panic + store) \<Rightarrow> 'a list \<Rightarrow> store \<Rightarrow> panic + store" where
  "runAll step [] \<sigma> = Inr \<sigma>"
| "runAll step (x # xs) \<sigma> =
     (case step x \<sigma> of
        Inl e \<Rightarrow> Inl e
      | Inr \<sigma>' \<Rightarrow> runAll step xs \<sigma>')"

text \<open>
  The store when the program starts: Go gives the package-level
  \<^verbatim>\<open>var ATNInvalidAltNumber int\<close> its zero value.
\<close>

definition programStart :: "ATN \<Rightarrow> (state_ref \<Rightarrow> ATNState) \<Rightarrow> store" where
  "programStart a h = \<lparr>ATNInvalidAltNumber = 0, atn = a, heap = h\<rparr>"

text \<open>Defining decision states in order, collecting the indices returned.\<close>

fun defineAll :: "state_ref list \<Rightarrow> store \<Rightarrow> panic + (int list \<times> store)" where
  "defineAll [] \<sigma> = Inr ([], \<sigma>)"
| "defineAll (r # rs) \<sigma> =
     (case defineDecisionState (Some r) \<sigma> of
        Inl e \<Rightarrow> Inl e
      | Inr (i, \<sigma>') \<Rightarrow>
          (case defineAll rs \<sigma>' of
             Inl e \<Rightarrow> Inl e
           | Inr (is, \<sigma>'') \<Rightarrow> Inr (i # is, \<sigma>'')))"

section \<open>A small graph used to exercise the theorems\<close>

text \<open>
  Rule \<open>A\<close> calls rule \<open>B\<close> at state 0 and continues at state 2; state 1 is the start of
  \<open>B\<close>, whose body is empty; state 3 is the start of a rule whose body is one optional
  token 4. The analyzer of the example answers as the spec's scenarios say: \<open>{epsilon}\<close> at
  state 1, the continuation token 7 at state 2, \<open>{4, epsilon}\<close> at state 3.
\<close>

definition blankState :: ATNState where
  "blankState = \<lparr>stateNumber = - 1, atnSet = False, nextTokenWithinRule = None,
                  transitions = [], decision = - 1\<rparr>"

definition exLook :: analyzer where
  "exLook s ctx =
     (if s = Some 1 then Some \<lparr>intervals = {TokenEpsilon}, readOnly = False\<rparr>
      else if s = Some 2 then Some \<lparr>intervals = {7}, readOnly = False\<rparr>
      else if s = Some 3 then Some \<lparr>intervals = {4, TokenEpsilon}, readOnly = False\<rparr>
      else if s = None then None
      else Some \<lparr>intervals = {}, readOnly = False\<rparr>)"

definition exHeap :: "state_ref \<Rightarrow> ATNState" where
  "exHeap = (\<lambda>_. blankState)
     (0 := blankState\<lparr>stateNumber := 0, atnSet := True, transitions := [RuleTransition (Some 2)]\<rparr>,
      1 := blankState\<lparr>stateNumber := 1, atnSet := True, transitions := [OtherTransition]\<rparr>,
      2 := blankState\<lparr>stateNumber := 2, atnSet := True\<rparr>,
      3 := blankState\<lparr>stateNumber := 3, atnSet := True, transitions := [OtherTransition]\<rparr>)"

definition exStore :: store where
  "exStore = \<lparr>ATNInvalidAltNumber = 0,
               atn = (NewATN 1 10)\<lparr>states := [Some 0, Some 1, Some 2, Some 3]\<rparr>,
               heap = exHeap\<rparr>"

text \<open>
  An analyzer that resolves the end of a rule against the context it is given: epsilon
  when there is no context, the end-of-input marker when there is one.
\<close>

definition markerLook :: analyzer where
  "markerLook s ctx =
     Some \<lparr>intervals = (if ctx = None then {TokenEpsilon} else {TokenEOF}), readOnly = False\<rparr>"

section \<open>Panics of the expected-token query\<close>

lemma NextTokensInContext_not_invalid:
  "NextTokensInContext look s ctx \<sigma> \<noteq> Inl InvalidStateNumber"
  by (simp add: NextTokensInContext_def split: option.splits)

lemma NextTokensNoContext_not_invalid:
  "NextTokensNoContext look s \<sigma> \<noteq> Inl InvalidStateNumber"
  by (simp add: NextTokensNoContext_def NextTokensInContext_def split: option.splits)

lemma NextTokens_not_invalid:
  "NextTokens look s ctx \<sigma> \<noteq> Inl InvalidStateNumber"
  by (simp add: NextTokens_def NextTokensInContext_not_invalid NextTokensNoContext_not_invalid)

lemma index_not_invalid: "index xs i \<noteq> Inl InvalidStateNumber"
  by (simp add: index_def)

lemma expectedLoop_not_invalid:
  "expectedLoop look ctx following expected \<sigma> \<noteq> Inl InvalidStateNumber"
proof (induction look ctx following expected \<sigma> rule: expectedLoop.induct)
  case (1 look following expected \<sigma>)
  show ?case by simp
next
  case (2 look invokingState parent following expected \<sigma>)
  then show ?case
    by (auto simp: index_not_invalid NextTokens_not_invalid
          split: sum.splits option.splits list.splits Transition.splits)
qed

text \<open>
  Claim C3. \<^verbatim>\<open>getExpectedTokens\<close> panics with the invalid-state-number condition exactly
  when the state number is negative or not below the number of states of the graph; every
  other panic of the query is a different condition. For such a state number the query
  returns no set at all, so in particular no empty set.
\<close>

theorem getExpectedTokens_invalid_state:
  "(getExpectedTokens look n ctx \<sigma> = Inl InvalidStateNumber
      \<longleftrightarrow> n < 0 \<or> n \<ge> int (length (states (atn \<sigma>))))
   \<and> (n < 0 \<or> n \<ge> int (length (states (atn \<sigma>)))
      \<longrightarrow> (\<forall>res. getExpectedTokens look n ctx \<sigma> \<noteq> Inr res))"
  by (auto simp: getExpectedTokens_def NextTokens_not_invalid expectedLoop_not_invalid
        split: sum.splits)

theorem getExpectedTokens_invalid_state_witness:
  "getExpectedTokens exLook 4 None exStore = Inl InvalidStateNumber
   \<and> getExpectedTokens exLook (- 1) None exStore = Inl InvalidStateNumber
   \<and> getExpectedTokens exLook 3 None exStore \<noteq> Inl InvalidStateNumber"
  using getExpectedTokens_invalid_state [of exLook 4 None exStore]
        getExpectedTokens_invalid_state [of exLook "- 1" None exStore]
        getExpectedTokens_invalid_state [of exLook 3 None exStore]
  by (simp add: exStore_def NewATN_def)

section \<open>The expected-token query and the reference algorithm\<close>

lemma followStateOf_index:
  "followStateOf \<sigma> k =
     (case index (states (atn \<sigma>)) k of
        Inl e \<Rightarrow> Inl e
      | Inr None \<Rightarrow> Inl NilDereference
      | Inr (Some r) \<Rightarrow>
          (case transitions (heap \<sigma> r) of
             [] \<Rightarrow> Inl IndexOutOfRange
           | OtherTransition # _ \<Rightarrow> Inl InterfaceConversion
           | RuleTransition fs # _ \<Rightarrow> Inr fs))"
  by (simp add: followStateOf_def index_def split: option.splits list.splits Transition.splits)

lemma nonroot_nonneg:
  "0 \<le> k \<Longrightarrow> \<not> isRootContext (Some (RuleContext k parent))"
  by (auto simp: isRootContext_def ParserRuleContextEmpty_def)

lemma expectedLoop_specLoop:
  "TokenEpsilon \<notin> intervals expected \<Longrightarrow>
   expectedLoop look ctx following expected \<sigma> =
     (case specLoop look ctx following (intervals expected) \<sigma> of
        Inl e \<Rightarrow> Inl e
      | Inr (f, acc, \<sigma>') \<Rightarrow> Inr (f, expected\<lparr>intervals := acc\<rparr>, \<sigma>'))"
proof (induction look ctx following expected \<sigma> rule: expectedLoop.induct)
  case (1 look following expected \<sigma>)
  show ?case by simp
next
  case (2 look invokingState parent following expected \<sigma>)
  show ?case
  proof (cases "invokingState \<ge> 0 \<and> Contains following TokenEpsilon")
    case False
    then show ?thesis by (auto simp: Contains_def)
  next
    case True
    have acc: "intervals (removeOne (addSet expected f') TokenEpsilon)
                 = intervals expected \<union> (intervals f' - {TokenEpsilon})" for f'
      using "2.prems" by (auto simp: removeOne_def addSet_def)
    have upd: "(removeOne (addSet expected f') TokenEpsilon)\<lparr>intervals := X\<rparr>
                 = expected\<lparr>intervals := X\<rparr>" for f' X
      by (simp add: removeOne_def addSet_def)
    have noeps: "TokenEpsilon \<notin> intervals (removeOne (addSet expected f') TokenEpsilon)" for f'
      by (simp add: removeOne_def)
    show ?thesis
      using True "2.IH" noeps
      by (auto simp: followStateOf_index nonroot_nonneg Contains_def acc upd
            split: sum.splits option.splits list.splits Transition.splits)
  qed
qed

text \<open>
  Claim C1. \<^verbatim>\<open>getExpectedTokens\<close> computes what the reference algorithm of the
  specification computes, on every graph, state number and context chain: the same set
  and the same caches when it returns, the same fatal condition when it does not. The
  code adds \<open>following\<close> to the accumulator and then removes epsilon from the whole
  accumulator; this is the union with \<open>following\<close> minus epsilon because the accumulator
  never holds epsilon.
\<close>

theorem getExpectedTokens_refines_spec:
  "getExpectedTokens look n ctx \<sigma> = specGetExpectedTokens look n ctx \<sigma>"
proof (cases "0 \<le> n \<and> n < int (length (states (atn \<sigma>)))")
  case False
  then show ?thesis
    by (auto simp: getExpectedTokens_def specGetExpectedTokens_def)
next
  case inRange: True
  show ?thesis
  proof (cases "NextTokens look (states (atn \<sigma>) ! nat n) None \<sigma>")
    case (Inl e)
    with inRange show ?thesis
      by (simp add: getExpectedTokens_def specGetExpectedTokens_def)
  next
    case (Inr res)
    obtain f \<sigma>1 where res: "res = (f, \<sigma>1)" by (cases res)
    let ?seed = "removeOne (addSet NewIntervalSet f) TokenEpsilon"
    have noeps: "TokenEpsilon \<notin> intervals ?seed"
      by (simp add: removeOne_def)
    have seedv: "intervals ?seed = intervals f - {TokenEpsilon}"
      by (simp add: removeOne_def addSet_def NewIntervalSet_def)
    have seedu: "?seed\<lparr>intervals := X\<rparr> = \<lparr>intervals = X, readOnly = False\<rparr>" for X
      by (simp add: removeOne_def addSet_def NewIntervalSet_def)
    have loop: "expectedLoop look ctx f ?seed \<sigma>1 =
        (case specLoop look ctx f (intervals f - {TokenEpsilon}) \<sigma>1 of
           Inl e \<Rightarrow> Inl e
         | Inr (f', acc, \<sigma>') \<Rightarrow> Inr (f', \<lparr>intervals = acc, readOnly = False\<rparr>, \<sigma>'))"
      using expectedLoop_specLoop [OF noeps, of look ctx f \<sigma>1]
      by (simp only: seedv seedu)
    show ?thesis
      unfolding getExpectedTokens_def specGetExpectedTokens_def
      using inRange Inr res
      by (auto simp: loop Contains_def AddOne_def split: sum.splits)
  qed
qed

theorem getExpectedTokens_refines_spec_witness:
  "map_sum id fst (getExpectedTokens exLook 1
       (Some (RuleContext 0 (Some ParserRuleContextEmpty))) exStore)
     = Inr \<lparr>intervals = {7}, readOnly = False\<rparr>
   \<and> map_sum id fst (getExpectedTokens exLook 3 None exStore)
     = Inr \<lparr>intervals = {4, TokenEOF}, readOnly = False\<rparr>"
  using getExpectedTokens_refines_spec
          [of exLook 1 "Some (RuleContext 0 (Some ParserRuleContextEmpty))" exStore]
        getExpectedTokens_refines_spec [of exLook 3 None exStore]
  by (simp add: exStore_def exHeap_def exLook_def blankState_def NewATN_def
        ParserRuleContextEmpty_def isRootContext_def followStateOf_def NextTokens_def
        NextTokensNoContext_def NextTokensInContext_def SetNextTokenWithinRule_def
        TokenEpsilon_def TokenEOF_def specGetExpectedTokens_def insert_commute)

text \<open>
  A walked link without a parent link: the level of the link is computed, then the type
  assertion on the \<^verbatim>\<open>nil\<close> result of \<^verbatim>\<open>GetParent()\<close> panics. The query returns no set
  for such a chain, in the code as in the reference algorithm.
\<close>

lemma getExpectedTokens_parentless_link:
  "getExpectedTokens exLook 1 (Some (RuleContext 0 None)) exStore = Inl InterfaceConversion
   \<and> specGetExpectedTokens exLook 1 (Some (RuleContext 0 None)) exStore = Inl InterfaceConversion"
  by (simp add: exStore_def exHeap_def exLook_def blankState_def NewATN_def
        ParserRuleContextEmpty_def isRootContext_def followStateOf_def NextTokens_def
        NextTokensNoContext_def NextTokensInContext_def SetNextTokenWithinRule_def
        TokenEpsilon_def getExpectedTokens_def specGetExpectedTokens_def Contains_def index_def)

section \<open>Epsilon propagation\<close>

lemma eraseCaches_fields:
  "atn (eraseCaches \<sigma>) = atn \<sigma>"
  "ATNInvalidAltNumber (eraseCaches \<sigma>) = ATNInvalidAltNumber \<sigma>"
  "transitions (heap (eraseCaches \<sigma>) r) = transitions (heap \<sigma> r)"
  "stateNumber (heap (eraseCaches \<sigma>) r) = stateNumber (heap \<sigma> r)"
  "decision (heap (eraseCaches \<sigma>) r) = decision (heap \<sigma> r)"
  "atnSet (heap (eraseCaches \<sigma>) r) = atnSet (heap \<sigma> r)"
  by (simp_all add: eraseCaches_def)

lemma eraseCaches_SetNextTokenWithinRule:
  "eraseCaches (SetNextTokenWithinRule r iset \<sigma>) = eraseCaches \<sigma>"
  by (auto simp: eraseCaches_def SetNextTokenWithinRule_def fun_eq_iff)

lemma NextTokensInContext_store:
  "NextTokensInContext look s ctx \<sigma> = Inr (iset, \<sigma>') \<Longrightarrow> \<sigma>' = \<sigma>"
  by (auto simp: NextTokensInContext_def split: option.splits)

lemma NextTokensNoContext_graph:
  "NextTokensNoContext look s \<sigma> = Inr (iset, \<sigma>') \<Longrightarrow> eraseCaches \<sigma>' = eraseCaches \<sigma>"
  by (auto simp: NextTokensNoContext_def NextTokensInContext_def
        eraseCaches_SetNextTokenWithinRule split: option.splits)

lemma NextTokens_graph:
  "NextTokens look s ctx \<sigma> = Inr (iset, \<sigma>') \<Longrightarrow> eraseCaches \<sigma>' = eraseCaches \<sigma>"
  by (auto simp: NextTokens_def dest: NextTokensNoContext_graph NextTokensInContext_store
        split: if_splits)

lemma same_graph_fields:
  assumes "eraseCaches \<sigma>' = eraseCaches \<sigma>"
  shows "atn \<sigma>' = atn \<sigma>"
    and "ATNInvalidAltNumber \<sigma>' = ATNInvalidAltNumber \<sigma>"
    and "transitions (heap \<sigma>' r) = transitions (heap \<sigma> r)"
    and "stateNumber (heap \<sigma>' r) = stateNumber (heap \<sigma> r)"
    and "decision (heap \<sigma>' r) = decision (heap \<sigma> r)"
  using assms
    eraseCaches_fields(1) [of \<sigma>] eraseCaches_fields(1) [of \<sigma>']
    eraseCaches_fields(2) [of \<sigma>] eraseCaches_fields(2) [of \<sigma>']
    eraseCaches_fields(3) [of \<sigma> r] eraseCaches_fields(3) [of \<sigma>' r]
    eraseCaches_fields(4) [of \<sigma> r] eraseCaches_fields(4) [of \<sigma>' r]
    eraseCaches_fields(5) [of \<sigma> r] eraseCaches_fields(5) [of \<sigma>' r]
  by simp_all


lemma expectedLoop_stepE:
  assumes "expectedLoop look (Some (RuleContext k parent)) f e \<sigma> = Inr res"
    and "0 \<le> k \<and> Contains f TokenEpsilon"
  obtains r fs ts fl \<sigma>l p where
    "index (states (atn \<sigma>)) k = Inr (Some r)"
    "transitions (heap \<sigma> r) = RuleTransition fs # ts"
    "NextTokens look fs None \<sigma> = Inr (fl, \<sigma>l)"
    "parent = Some p"
    "expectedLoop look (Some p) fl (removeOne (addSet e fl) TokenEpsilon) \<sigma>l = Inr res"
  using assms
  by (auto split: sum.splits option.splits list.splits Transition.splits)

lemma expectedLoop_graph:
  "expectedLoop look ctx f e \<sigma> = Inr (f', e', \<sigma>') \<Longrightarrow> eraseCaches \<sigma>' = eraseCaches \<sigma>"
proof (induction look ctx f e \<sigma> rule: expectedLoop.induct)
  case (1 look following expected \<sigma>)
  then show ?case by simp
next
  case (2 look invokingState parent following expected \<sigma>)
  show ?case
  proof (cases "invokingState \<ge> 0 \<and> Contains following TokenEpsilon")
    case False
    with "2.prems" show ?thesis by auto
  next
    case True
    from "2.prems" True obtain r fs ts fl \<sigma>l p where
      st: "index (states (atn \<sigma>)) invokingState = Inr (Some r)"
      and tr: "transitions (heap \<sigma> r) = RuleTransition fs # ts"
      and nt: "NextTokens look fs None \<sigma> = Inr (fl, \<sigma>l)"
      and pa: "parent = Some p"
      and rec: "expectedLoop look (Some p) fl (removeOne (addSet expected fl) TokenEpsilon) \<sigma>l
                 = Inr (f', e', \<sigma>')"
      by (rule expectedLoop_stepE)
    from "2.IH" [OF True st refl tr refl nt refl pa rec] NextTokens_graph [OF nt]
    show ?thesis by simp
  qed
qed







lemmas ex_simps = exStore_def exHeap_def exLook_def blankState_def NewATN_def
  NextTokens_def NextTokensNoContext_def NextTokensInContext_def SetNextTokenWithinRule_def


section \<open>The caches\<close>

lemma runAll_invariant:
  assumes step: "\<And>x \<sigma> \<sigma>'. step x \<sigma> = Inr \<sigma>' \<Longrightarrow> P \<sigma> \<Longrightarrow> P \<sigma>'"
    and run: "runAll step xs \<sigma> = Inr \<sigma>'"
    and init: "P \<sigma>"
  shows "P \<sigma>'"
  using run init
proof (induction xs arbitrary: \<sigma>)
  case Nil
  then show ?case by simp
next
  case (Cons x xs)
  from Cons.prems(1) obtain \<sigma>m where
    s1: "step x \<sigma> = Inr \<sigma>m" and s2: "runAll step xs \<sigma>m = Inr \<sigma>'"
    by (auto split: sum.splits)
  from step [OF s1 Cons.prems(2)] have "P \<sigma>m" .
  from Cons.IH [OF s2 this] show ?case .
qed

lemma NextTokensNoContext_cached:
  "nextTokenWithinRule (heap \<sigma> r) = Some c \<Longrightarrow>
     NextTokensNoContext look (Some r) \<sigma> = Inr (c, \<sigma>)"
  by (simp add: NextTokensNoContext_def)

lemma NextTokensNoContext_fills:
  "NextTokensNoContext look s \<sigma> = Inr (iset, \<sigma>') \<Longrightarrow>
     \<exists>r. s = Some r \<and> nextTokenWithinRule (heap \<sigma>' r) = Some iset"
  by (auto simp: NextTokensNoContext_def NextTokensInContext_def SetNextTokenWithinRule_def
        split: option.splits)

lemma NextTokensNoContext_keeps_cache:
  "NextTokensNoContext look s \<sigma> = Inr (iset, \<sigma>') \<Longrightarrow>
     nextTokenWithinRule (heap \<sigma> r) = Some c \<Longrightarrow>
     nextTokenWithinRule (heap \<sigma>' r) = Some c"
  by (auto simp: NextTokensNoContext_def NextTokensInContext_def SetNextTokenWithinRule_def
        split: option.splits)

lemma NextTokens_keeps_cache:
  "NextTokens look s ctx \<sigma> = Inr (iset, \<sigma>') \<Longrightarrow>
     nextTokenWithinRule (heap \<sigma> r) = Some c \<Longrightarrow>
     nextTokenWithinRule (heap \<sigma>' r) = Some c"
  by (auto simp: NextTokens_def dest: NextTokensNoContext_keeps_cache NextTokensInContext_store
        split: if_splits)

lemma expectedLoop_keeps_cache:
  "expectedLoop look ctx f e \<sigma> = Inr (f', e', \<sigma>') \<Longrightarrow>
     nextTokenWithinRule (heap \<sigma> r) = Some c \<Longrightarrow>
     nextTokenWithinRule (heap \<sigma>' r) = Some c"
proof (induction look ctx f e \<sigma> rule: expectedLoop.induct)
  case (1 look following expected \<sigma>)
  then show ?case by simp
next
  case (2 look invokingState parent following expected \<sigma>)
  show ?case
  proof (cases "invokingState \<ge> 0 \<and> Contains following TokenEpsilon")
    case False
    with "2.prems" show ?thesis by auto
  next
    case True
    from "2.prems"(1) True obtain r0 fs ts fl \<sigma>l p where
      st: "index (states (atn \<sigma>)) invokingState = Inr (Some r0)"
      and tr: "transitions (heap \<sigma> r0) = RuleTransition fs # ts"
      and nt: "NextTokens look fs None \<sigma> = Inr (fl, \<sigma>l)"
      and pa: "parent = Some p"
      and rec: "expectedLoop look (Some p) fl (removeOne (addSet expected fl) TokenEpsilon) \<sigma>l
                 = Inr (f', e', \<sigma>')"
      by (rule expectedLoop_stepE)
    from NextTokens_keeps_cache [OF nt "2.prems"(2)]
    have "nextTokenWithinRule (heap \<sigma>l r) = Some c" .
    from "2.IH" [OF True st refl tr refl nt refl pa rec this]
    show ?thesis .
  qed
qed

lemma getExpectedTokens_InrE:
  assumes "getExpectedTokens look n ctx \<sigma> = Inr (res, \<sigma>')"
  obtains
    (local) "NextTokens look (states (atn \<sigma>) ! nat n) None \<sigma> = Inr (res, \<sigma>')"
  | (walked) f0 \<sigma>1 f' e' where
      "NextTokens look (states (atn \<sigma>) ! nat n) None \<sigma> = Inr (f0, \<sigma>1)"
      "expectedLoop look ctx f0 (removeOne (addSet NewIntervalSet f0) TokenEpsilon) \<sigma>1
         = Inr (f', e', \<sigma>')"
  using assms unfolding getExpectedTokens_def
  by (auto simp del: expectedLoop.simps split: if_splits sum.splits)

lemma getExpectedTokens_keeps_cache:
  assumes "getExpectedTokens look n ctx \<sigma> = Inr (res, \<sigma>')"
    and "nextTokenWithinRule (heap \<sigma> r) = Some c"
  shows "nextTokenWithinRule (heap \<sigma>' r) = Some c"
  using assms(1)
proof (cases rule: getExpectedTokens_InrE)
  case local
  from NextTokens_keeps_cache [OF this assms(2)] show ?thesis .
next
  case (walked f0 \<sigma>1 f' e')
  from expectedLoop_keeps_cache [OF walked(2) NextTokens_keeps_cache [OF walked(1) assms(2)]]
  show ?thesis .
qed

lemma getExpectedTokens_graph:
  assumes "getExpectedTokens look n ctx \<sigma> = Inr (res, \<sigma>')"
  shows "eraseCaches \<sigma>' = eraseCaches \<sigma>"
  using assms
proof (cases rule: getExpectedTokens_InrE)
  case local
  from NextTokens_graph [OF this] show ?thesis .
next
  case (walked f0 \<sigma>1 f' e')
  from expectedLoop_graph [OF walked(2)] NextTokens_graph [OF walked(1)]
  show ?thesis by simp
qed

lemma runQuery_keeps_cache:
  "runQuery look q \<sigma> = Inr \<sigma>' \<Longrightarrow>
     nextTokenWithinRule (heap \<sigma> r) = Some c \<Longrightarrow>
     nextTokenWithinRule (heap \<sigma>' r) = Some c"
proof (cases q)
  case (QNextTokensInContext s ctx)
  assume "runQuery look q \<sigma> = Inr \<sigma>'" "nextTokenWithinRule (heap \<sigma> r) = Some c"
  with QNextTokensInContext show ?thesis
    by (cases "NextTokensInContext look s ctx \<sigma>") (auto dest: NextTokensInContext_store)
next
  case (QNextTokensNoContext s)
  assume "runQuery look q \<sigma> = Inr \<sigma>'" "nextTokenWithinRule (heap \<sigma> r) = Some c"
  with QNextTokensNoContext show ?thesis
    by (cases "NextTokensNoContext look s \<sigma>") (auto dest: NextTokensNoContext_keeps_cache)
next
  case (QNextTokens s ctx)
  assume "runQuery look q \<sigma> = Inr \<sigma>'" "nextTokenWithinRule (heap \<sigma> r) = Some c"
  with QNextTokens show ?thesis
    by (cases "NextTokens look s ctx \<sigma>") (auto dest: NextTokens_keeps_cache)
next
  case (QGetDecisionState d)
  assume "runQuery look q \<sigma> = Inr \<sigma>'" "nextTokenWithinRule (heap \<sigma> r) = Some c"
  with QGetDecisionState show ?thesis
    by (cases "getDecisionState d \<sigma>") auto
next
  case (QGetExpectedTokens n ctx)
  assume "runQuery look q \<sigma> = Inr \<sigma>'" "nextTokenWithinRule (heap \<sigma> r) = Some c"
  with QGetExpectedTokens show ?thesis
    by (cases "getExpectedTokens look n ctx \<sigma>") (auto dest: getExpectedTokens_keeps_cache)
next
  case (QGetRuleToStartState i)
  assume "runQuery look q \<sigma> = Inr \<sigma>'" "nextTokenWithinRule (heap \<sigma> r) = Some c"
  with QGetRuleToStartState show ?thesis
    by (cases "GetRuleToStartState i \<sigma>") auto
next
  case (QGetRuleToStopState i)
  assume "runQuery look q \<sigma> = Inr \<sigma>'" "nextTokenWithinRule (heap \<sigma> r) = Some c"
  with QGetRuleToStopState show ?thesis
    by (cases "GetRuleToStopState i \<sigma>") auto
next
  case QGetMaxTokenType
  assume "runQuery look q \<sigma> = Inr \<sigma>'" "nextTokenWithinRule (heap \<sigma> r) = Some c"
  with QGetMaxTokenType show ?thesis by auto
qed

lemma runOp_keeps_cache:
  "runOp look p \<sigma> = Inr \<sigma>' \<Longrightarrow>
     nextTokenWithinRule (heap \<sigma> r) = Some c \<Longrightarrow>
     nextTokenWithinRule (heap \<sigma>' r) = Some c"
proof (cases p)
  case (OpQuery q)
  assume "runOp look p \<sigma> = Inr \<sigma>'" "nextTokenWithinRule (heap \<sigma> r) = Some c"
  with OpQuery show ?thesis by (auto dest: runQuery_keeps_cache)
next
  case (OpAddState s)
  assume "runOp look p \<sigma> = Inr \<sigma>'" "nextTokenWithinRule (heap \<sigma> r) = Some c"
  with OpAddState show ?thesis
    by (auto simp: addState_def Let_def split: option.splits)
next
  case (OpRemoveState s)
  assume "runOp look p \<sigma> = Inr \<sigma>'" "nextTokenWithinRule (heap \<sigma> r) = Some c"
  with OpRemoveState show ?thesis
    by (auto simp: removeState_def Let_def split: option.splits if_splits)
next
  case (OpDefineDecisionState s)
  assume "runOp look p \<sigma> = Inr \<sigma>'" "nextTokenWithinRule (heap \<sigma> r) = Some c"
  with OpDefineDecisionState show ?thesis
    by (cases "defineDecisionState s \<sigma>")
       (auto simp: defineDecisionState_def Let_def split: option.splits)
qed

lemma runOps_keep_cache:
  "runAll (runOp look) ops \<sigma> = Inr \<sigma>' \<Longrightarrow>
     nextTokenWithinRule (heap \<sigma> r) = Some c \<Longrightarrow>
     nextTokenWithinRule (heap \<sigma>' r) = Some c"
  by (rule runAll_invariant [where step = "runOp look" and P = "\<lambda>\<sigma>. nextTokenWithinRule (heap \<sigma> r) = Some c"])
     (auto dest: runOp_keeps_cache)

lemma runQueries_keep_cache:
  "runAll (runQuery look) qs \<sigma> = Inr \<sigma>' \<Longrightarrow>
     nextTokenWithinRule (heap \<sigma> r) = Some c \<Longrightarrow>
     nextTokenWithinRule (heap \<sigma>' r) = Some c"
  by (rule runAll_invariant [where step = "runQuery look" and P = "\<lambda>\<sigma>. nextTokenWithinRule (heap \<sigma> r) = Some c"])
     (auto dest: runQuery_keeps_cache)

lemmas run_simps = getExpectedTokens_def Contains_def index_def removeOne_def addSet_def
  AddOne_def NewIntervalSet_def addState_def removeState_def defineDecisionState_def
  getDecisionState_def TokenEpsilon_def TokenEOF_def ParserRuleContextEmpty_def

text \<open>
  Claim C4. \<^verbatim>\<open>NextTokensNoContext\<close> is memoized per state. With the cache of the state
  absent, the call computes the set with \<^verbatim>\<open>NextTokensInContext(s, nil)\<close>, marks it
  read-only, stores it on the state and returns it. With the cache present, the call
  returns the cached set and leaves the store alone, whatever the analyzer would answer.
  After a first call, every later call for the state, after any operations on the graph,
  returns the set of the first call, again whatever the analyzer would answer: the closure
  is not computed a second time.
\<close>

theorem NextTokensNoContext_memoized:
  "(nextTokenWithinRule (heap \<sigma> r) = None \<and> look (Some r) None = Some v \<longrightarrow>
       NextTokensInContext look (Some r) None \<sigma> = Inr (v, \<sigma>)
     \<and> NextTokensNoContext look (Some r) \<sigma> =
         Inr (v\<lparr>readOnly := True\<rparr>, SetNextTokenWithinRule r (v\<lparr>readOnly := True\<rparr>) \<sigma>)
     \<and> nextTokenWithinRule (heap (SetNextTokenWithinRule r (v\<lparr>readOnly := True\<rparr>) \<sigma>) r)
         = Some (v\<lparr>readOnly := True\<rparr>))
   \<and> (\<forall>c look'. nextTokenWithinRule (heap \<sigma> r) = Some c \<longrightarrow>
         NextTokensNoContext look' (Some r) \<sigma> = Inr (c, \<sigma>))
   \<and> (\<forall>iset \<sigma>1 look' ops \<sigma>2 look''.
         NextTokensNoContext look (Some r) \<sigma> = Inr (iset, \<sigma>1)
       \<and> runAll (runOp look') ops \<sigma>1 = Inr \<sigma>2
       \<longrightarrow> NextTokensNoContext look'' (Some r) \<sigma>2 = Inr (iset, \<sigma>2))"
proof (intro conjI allI impI)
  fix iset \<sigma>1 look' ops \<sigma>2 look''
  assume a: "NextTokensNoContext look (Some r) \<sigma> = Inr (iset, \<sigma>1)
       \<and> runAll (runOp look') ops \<sigma>1 = Inr \<sigma>2"
  from NextTokensNoContext_fills [of look "Some r" \<sigma> iset \<sigma>1] a
  have "nextTokenWithinRule (heap \<sigma>1 r) = Some iset" by simp
  with a have "nextTokenWithinRule (heap \<sigma>2 r) = Some iset"
    by (blast intro: runOps_keep_cache)
  then show "NextTokensNoContext look'' (Some r) \<sigma>2 = Inr (iset, \<sigma>2)"
    by (rule NextTokensNoContext_cached)
qed (simp_all add: NextTokensNoContext_def NextTokensInContext_def SetNextTokenWithinRule_def)

theorem NextTokensNoContext_memoized_witness:
  "NextTokensNoContext exLook (Some 1) exStore =
     Inr (\<lparr>intervals = {TokenEpsilon}, readOnly = True\<rparr>,
          SetNextTokenWithinRule 1 \<lparr>intervals = {TokenEpsilon}, readOnly = True\<rparr> exStore)
   \<and> (\<exists>\<sigma>2. runAll (runOp exLook)
               [OpQuery (QGetExpectedTokens 3 None), OpAddState (Some 5), OpRemoveState (Some 2),
                OpQuery (QNextTokensNoContext (Some 1))]
               (SetNextTokenWithinRule 1 \<lparr>intervals = {TokenEpsilon}, readOnly = True\<rparr> exStore)
             = Inr \<sigma>2
          \<and> NextTokensNoContext (\<lambda>s ctx. None) (Some 1) \<sigma>2
             = Inr (\<lparr>intervals = {TokenEpsilon}, readOnly = True\<rparr>, \<sigma>2))"
proof -
  let ?c = "\<lparr>intervals = {TokenEpsilon}, readOnly = True\<rparr>"
  let ?\<sigma>1 = "SetNextTokenWithinRule 1 ?c exStore"
  let ?ops = "[OpQuery (QGetExpectedTokens 3 None), OpAddState (Some 5), OpRemoveState (Some 2),
                OpQuery (QNextTokensNoContext (Some 1))]"
  have first: "NextTokensNoContext exLook (Some 1) exStore = Inr (?c, ?\<sigma>1)"
    by (simp add: ex_simps)
  have "\<exists>\<sigma>2. runAll (runOp exLook) ?ops ?\<sigma>1 = Inr \<sigma>2"
    by (simp add: ex_simps run_simps)
  then obtain \<sigma>2 where run: "runAll (runOp exLook) ?ops ?\<sigma>1 = Inr \<sigma>2" ..
  from NextTokensNoContext_memoized [of exStore 1 exLook] first run
  have "NextTokensNoContext (\<lambda>s ctx. None) (Some 1) \<sigma>2 = Inr (?c, \<sigma>2)"
    by blast
  with first run show ?thesis by blast
qed

section \<open>Determinism and the frame of the context-sensitive query\<close>

text \<open>
  Claim C6. \<^verbatim>\<open>NextTokens\<close> is deterministic on a fixed graph: when a call for a state
  and a context has returned a set, a second call for the same state and context, after
  any queries in between, returns the same set, and leaves the store as it finds it.
\<close>

theorem NextTokens_deterministic:
  assumes first: "NextTokens look s ctx \<sigma> = Inr (iset, \<sigma>1)"
    and between: "runAll (runQuery look) qs \<sigma>1 = Inr \<sigma>2"
  shows "NextTokens look s ctx \<sigma>2 = Inr (iset, \<sigma>2)"
proof (cases "ctx = None")
  case True
  with first have nc: "NextTokensNoContext look s \<sigma> = Inr (iset, \<sigma>1)"
    by (simp add: NextTokens_def)
  from NextTokensNoContext_fills [OF nc] obtain r where
    s: "s = Some r" and c1: "nextTokenWithinRule (heap \<sigma>1 r) = Some iset" by blast
  from runQueries_keep_cache [OF between c1]
  have "nextTokenWithinRule (heap \<sigma>2 r) = Some iset" .
  from NextTokensNoContext_cached [OF this] True s show ?thesis
    by (simp add: NextTokens_def)
next
  case False
  with first show ?thesis
    by (auto simp: NextTokens_def NextTokensInContext_def split: option.splits)
qed

theorem NextTokens_deterministic_witness:
  "\<exists>\<sigma>2. runAll (runQuery exLook)
            [QGetExpectedTokens 1 (Some (RuleContext 0 (Some ParserRuleContextEmpty))),
             QNextTokens (Some 2) None, QGetMaxTokenType]
            (SetNextTokenWithinRule 3 \<lparr>intervals = {4, TokenEpsilon}, readOnly = True\<rparr> exStore)
          = Inr \<sigma>2
      \<and> NextTokens exLook (Some 3) None exStore
          = Inr (\<lparr>intervals = {4, TokenEpsilon}, readOnly = True\<rparr>,
                 SetNextTokenWithinRule 3 \<lparr>intervals = {4, TokenEpsilon}, readOnly = True\<rparr> exStore)
      \<and> NextTokens exLook (Some 3) None \<sigma>2
          = Inr (\<lparr>intervals = {4, TokenEpsilon}, readOnly = True\<rparr>, \<sigma>2)"
proof -
  let ?c = "\<lparr>intervals = {4, TokenEpsilon}, readOnly = True\<rparr>"
  let ?\<sigma>1 = "SetNextTokenWithinRule 3 ?c exStore"
  let ?qs = "[QGetExpectedTokens 1 (Some (RuleContext 0 (Some ParserRuleContextEmpty))),
             QNextTokens (Some 2) None, QGetMaxTokenType]"
  have first: "NextTokens exLook (Some 3) None exStore = Inr (?c, ?\<sigma>1)"
    by (simp add: ex_simps)
  have "\<exists>\<sigma>2. runAll (runQuery exLook) ?qs ?\<sigma>1 = Inr \<sigma>2"
    by (simp add: ex_simps run_simps)
  then obtain \<sigma>2 where run: "runAll (runQuery exLook) ?qs ?\<sigma>1 = Inr \<sigma>2" ..
  from NextTokens_deterministic [OF first run] first run
  show ?thesis by blast
qed

text \<open>
  Claim C10. With a context that is not \<^verbatim>\<open>nil\<close>, \<^verbatim>\<open>NextTokens\<close> is
  \<^verbatim>\<open>NextTokensInContext\<close>, which writes no cache (the store it returns is the store it
  was given, so the cache of every state is unchanged) and reads none (it answers the same
  on every other store, whatever the caches hold there).
\<close>

theorem context_queries_frame:
  "ctx \<noteq> None \<Longrightarrow>
     NextTokens look s ctx \<sigma> = NextTokensInContext look s ctx \<sigma>
   \<and> (\<forall>iset \<sigma>'. NextTokensInContext look s ctx \<sigma> = Inr (iset, \<sigma>') \<longrightarrow>
         \<sigma>' = \<sigma> \<and> (\<forall>r. nextTokenWithinRule (heap \<sigma>' r) = nextTokenWithinRule (heap \<sigma> r)))
   \<and> (\<forall>\<sigma>2. map_sum id fst (NextTokensInContext look s ctx \<sigma>2)
             = map_sum id fst (NextTokensInContext look s ctx \<sigma>))"
  by (auto simp: NextTokens_def NextTokensInContext_def split: option.splits)

theorem context_queries_frame_witness:
  "NextTokens exLook (Some 1) (Some ParserRuleContextEmpty) exStore
     = Inr (\<lparr>intervals = {TokenEpsilon}, readOnly = False\<rparr>, exStore)
   \<and> map_sum id fst (NextTokensInContext exLook (Some 1) (Some ParserRuleContextEmpty)
        (SetNextTokenWithinRule 1 \<lparr>intervals = {5}, readOnly = True\<rparr> exStore))
     = map_sum id fst (NextTokensInContext exLook (Some 1) (Some ParserRuleContextEmpty) exStore)"
  using context_queries_frame [of "Some ParserRuleContextEmpty" exLook "Some 1" exStore]
  by (simp add: NextTokensInContext_def exLook_def)

section \<open>The dispatch of the public entry point\<close>

text \<open>
  Claim C5, as stated, fails for the empty/root context marker. The marker is a context
  that is not \<^verbatim>\<open>nil\<close>, so \<^verbatim>\<open>NextTokens\<close> hands it to \<^verbatim>\<open>NextTokensInContext\<close>: the
  returned set is not marked read-only, the cache of the state stays absent, and the
  analyzer is asked about the marker context rather than about no context.
\<close>

theorem NextTokens_root_marker_counterexample:
  "NextTokens exLook (Some 1) (Some ParserRuleContextEmpty) exStore
     = Inr (\<lparr>intervals = {TokenEpsilon}, readOnly = False\<rparr>, exStore)
   \<and> NextTokensNoContext exLook (Some 1) exStore
     = Inr (\<lparr>intervals = {TokenEpsilon}, readOnly = True\<rparr>,
            SetNextTokenWithinRule 1 \<lparr>intervals = {TokenEpsilon}, readOnly = True\<rparr> exStore)
   \<and> NextTokens exLook (Some 1) (Some ParserRuleContextEmpty) exStore
     \<noteq> NextTokensNoContext exLook (Some 1) exStore
   \<and> map_sum id (intervals \<circ> fst)
        (NextTokens markerLook (Some 1) (Some ParserRuleContextEmpty) exStore) = Inr {TokenEOF}
   \<and> map_sum id (intervals \<circ> fst) (NextTokensNoContext markerLook (Some 1) exStore)
        = Inr {TokenEpsilon}"
  by (simp add: NextTokens_def NextTokensNoContext_def NextTokensInContext_def exLook_def
        markerLook_def exStore_def exHeap_def blankState_def)

text \<open>
  Claim C5, amended. \<^verbatim>\<open>NextTokens(s, ctx)\<close> is \<^verbatim>\<open>NextTokensNoContext(s)\<close> when
  \<^verbatim>\<open>ctx\<close> is \<^verbatim>\<open>nil\<close>, and \<^verbatim>\<open>NextTokensInContext(s, ctx)\<close> for every other
  context, the empty/root context marker included.
\<close>

theorem NextTokens_dispatch:
  "NextTokens look s None \<sigma> = NextTokensNoContext look s \<sigma>
   \<and> (ctx \<noteq> None \<longrightarrow> NextTokens look s ctx \<sigma> = NextTokensInContext look s ctx \<sigma>)
   \<and> NextTokens look s (Some ParserRuleContextEmpty) \<sigma>
       = NextTokensInContext look s (Some ParserRuleContextEmpty) \<sigma>"
  by (simp add: NextTokens_def)

theorem NextTokens_dispatch_witness:
  "NextTokens exLook (Some 1) (Some (RuleContext 0 (Some ParserRuleContextEmpty))) exStore
     = NextTokensInContext exLook (Some 1) (Some (RuleContext 0 (Some ParserRuleContextEmpty))) exStore
   \<and> NextTokens exLook (Some 1) None exStore = NextTokensNoContext exLook (Some 1) exStore"
  using NextTokens_dispatch [of exLook "Some 1" exStore
          "Some (RuleContext 0 (Some ParserRuleContextEmpty))"]
  by simp

section \<open>State numbers\<close>

lemma runQuery_graph:
  "runQuery look q \<sigma> = Inr \<sigma>' \<Longrightarrow> eraseCaches \<sigma>' = eraseCaches \<sigma>"
proof (cases q)
  case (QNextTokensInContext s ctx)
  assume "runQuery look q \<sigma> = Inr \<sigma>'"
  with QNextTokensInContext show ?thesis
    by (cases "NextTokensInContext look s ctx \<sigma>") (auto dest: NextTokensInContext_store)
next
  case (QNextTokensNoContext s)
  assume "runQuery look q \<sigma> = Inr \<sigma>'"
  with QNextTokensNoContext show ?thesis
    by (cases "NextTokensNoContext look s \<sigma>") (auto dest: NextTokensNoContext_graph)
next
  case (QNextTokens s ctx)
  assume "runQuery look q \<sigma> = Inr \<sigma>'"
  with QNextTokens show ?thesis
    by (cases "NextTokens look s ctx \<sigma>") (auto dest: NextTokens_graph)
next
  case (QGetDecisionState d)
  assume "runQuery look q \<sigma> = Inr \<sigma>'"
  with QGetDecisionState show ?thesis
    by (cases "getDecisionState d \<sigma>") auto
next
  case (QGetExpectedTokens n ctx)
  assume "runQuery look q \<sigma> = Inr \<sigma>'"
  with QGetExpectedTokens show ?thesis
    by (cases "getExpectedTokens look n ctx \<sigma>") (auto dest: getExpectedTokens_graph)
next
  case (QGetRuleToStartState i)
  assume "runQuery look q \<sigma> = Inr \<sigma>'"
  with QGetRuleToStartState show ?thesis
    by (cases "GetRuleToStartState i \<sigma>") auto
next
  case (QGetRuleToStopState i)
  assume "runQuery look q \<sigma> = Inr \<sigma>'"
  with QGetRuleToStopState show ?thesis
    by (cases "GetRuleToStopState i \<sigma>") auto
next
  case QGetMaxTokenType
  assume "runQuery look q \<sigma> = Inr \<sigma>'"
  with QGetMaxTokenType show ?thesis by auto
qed

lemma defineDecisionState_Some:
  "defineDecisionState (Some r) \<sigma> =
     Inr (int (length (DecisionToState (atn \<sigma>))),
          \<sigma>\<lparr>atn := (atn \<sigma>)\<lparr>DecisionToState := DecisionToState (atn \<sigma>) @ [Some r]\<rparr>,
            heap := (heap \<sigma>)(r := (heap \<sigma> r)\<lparr>decision := int (length (DecisionToState (atn \<sigma>)))\<rparr>)\<rparr>)"
  by (simp add: defineDecisionState_def Let_def)

lemma runOp_length:
  "runOp look p \<sigma> = Inr \<sigma>' \<Longrightarrow>
     length (states (atn \<sigma>)) \<le> length (states (atn \<sigma>'))"
proof (cases p)
  case (OpQuery q)
  assume "runOp look p \<sigma> = Inr \<sigma>'"
  with OpQuery have "eraseCaches \<sigma>' = eraseCaches \<sigma>"
    by (auto dest: runQuery_graph)
  from same_graph_fields(1) [OF this] show ?thesis by simp
next
  case (OpAddState s)
  assume "runOp look p \<sigma> = Inr \<sigma>'"
  with OpAddState show ?thesis
    by (auto simp: addState_def Let_def split: option.splits)
next
  case (OpRemoveState s)
  assume "runOp look p \<sigma> = Inr \<sigma>'"
  with OpRemoveState show ?thesis
    by (auto simp: removeState_def Let_def split: option.splits if_splits)
next
  case (OpDefineDecisionState s)
  assume "runOp look p \<sigma> = Inr \<sigma>'"
  with OpDefineDecisionState show ?thesis
    by (cases s) (auto simp: defineDecisionState_def Let_def)
qed

lemma runOps_length:
  "runAll (runOp look) ops \<sigma> = Inr \<sigma>' \<Longrightarrow>
     n \<le> length (states (atn \<sigma>)) \<Longrightarrow> n \<le> length (states (atn \<sigma>'))"
  by (rule runAll_invariant [where step = "runOp look" and P = "\<lambda>\<sigma>. n \<le> length (states (atn \<sigma>))"])
     (auto dest: runOp_length)

lemma runAction_global:
  "runAction look a \<sigma> = Inr \<sigma>' \<Longrightarrow> ATNInvalidAltNumber \<sigma>' = ATNInvalidAltNumber \<sigma>"
proof (cases a)
  case (Construct gt mtt)
  assume "runAction look a \<sigma> = Inr \<sigma>'"
  with Construct show ?thesis by auto
next
  case (Perform p)
  assume run: "runAction look a \<sigma> = Inr \<sigma>'"
  show ?thesis
  proof (cases p)
    case (OpQuery q)
    with Perform run have "eraseCaches \<sigma>' = eraseCaches \<sigma>"
      by (auto dest: runQuery_graph)
    from same_graph_fields(2) [OF this] show ?thesis .
  next
    case (OpAddState s)
    with Perform run show ?thesis
      by (auto simp: addState_def Let_def split: option.splits)
  next
    case (OpRemoveState s)
    with Perform run show ?thesis
      by (auto simp: removeState_def Let_def split: option.splits if_splits)
  next
    case (OpDefineDecisionState s)
    with Perform run show ?thesis
      by (cases s) (auto simp: defineDecisionState_def Let_def)
  qed
qed

text \<open>
  Claim C7. \<^verbatim>\<open>addState\<close> appends the state and gives a state that is not \<^verbatim>\<open>nil\<close>
  the number of states there were before; it touches no other state. \<^verbatim>\<open>removeState\<close>
  succeeds exactly for a state whose number is a slot of the graph; it then sets that slot
  to \<^verbatim>\<open>nil\<close> in place: the slice keeps its length, every other slot keeps its entry,
  every state keeps its number. After any later operations on the graph, \<^verbatim>\<open>addState\<close>
  assigns the current length, which is above the number of the removed state: the numbers
  assigned only grow.
\<close>

theorem state_numbers_stable:
  "stateNumber (heap (addState (Some r) \<sigma>) r) = int (length (states (atn \<sigma>)))
   \<and> states (atn (addState st \<sigma>)) = states (atn \<sigma>) @ [st]
   \<and> heap (addState None \<sigma>) = heap \<sigma>
   \<and> (\<forall>r'. r' \<noteq> r \<longrightarrow> heap (addState (Some r) \<sigma>) r' = heap \<sigma> r')
   \<and> ((\<exists>\<sigma>1. removeState st \<sigma> = Inr \<sigma>1) \<longleftrightarrow>
        (\<exists>r. st = Some r \<and> 0 \<le> stateNumber (heap \<sigma> r)
              \<and> stateNumber (heap \<sigma> r) < int (length (states (atn \<sigma>)))))
   \<and> (\<forall>\<sigma>1. removeState (Some r) \<sigma> = Inr \<sigma>1 \<longrightarrow>
          states (atn \<sigma>1) = (states (atn \<sigma>))[nat (stateNumber (heap \<sigma> r)) := None]
        \<and> states (atn \<sigma>1) ! nat (stateNumber (heap \<sigma> r)) = None
        \<and> length (states (atn \<sigma>1)) = length (states (atn \<sigma>))
        \<and> (\<forall>i. i \<noteq> nat (stateNumber (heap \<sigma> r)) \<longrightarrow> states (atn \<sigma>1) ! i = states (atn \<sigma>) ! i)
        \<and> heap \<sigma>1 = heap \<sigma>
        \<and> (\<forall>look ops \<sigma>2 r'. runAll (runOp look) ops \<sigma>1 = Inr \<sigma>2 \<longrightarrow>
              stateNumber (heap \<sigma> r) < stateNumber (heap (addState (Some r') \<sigma>2) r')
            \<and> stateNumber (heap (addState (Some r') \<sigma>2) r') = int (length (states (atn \<sigma>2)))
            \<and> length (states (atn \<sigma>)) \<le> length (states (atn \<sigma>2))))"
proof -
  have add1: "stateNumber (heap (addState (Some r) \<sigma>) r) = int (length (states (atn \<sigma>)))" for r \<sigma>
    by (simp add: addState_def Let_def)
  have add2: "states (atn (addState st \<sigma>)) = states (atn \<sigma>) @ [st]"
    by (simp add: addState_def Let_def split: option.splits)
  have add3: "heap (addState None \<sigma>) = heap \<sigma>"
    by (simp add: addState_def Let_def)
  have add4: "\<forall>r'. r' \<noteq> r \<longrightarrow> heap (addState (Some r) \<sigma>) r' = heap \<sigma> r'"
    by (simp add: addState_def Let_def)
  have rem1: "(\<exists>\<sigma>1. removeState st \<sigma> = Inr \<sigma>1) \<longleftrightarrow>
        (\<exists>r. st = Some r \<and> 0 \<le> stateNumber (heap \<sigma> r)
              \<and> stateNumber (heap \<sigma> r) < int (length (states (atn \<sigma>))))"
    by (cases st) (auto simp: removeState_def Let_def)
  have rem2: "states (atn \<sigma>1) = (states (atn \<sigma>))[nat (stateNumber (heap \<sigma> r)) := None]
        \<and> states (atn \<sigma>1) ! nat (stateNumber (heap \<sigma> r)) = None
        \<and> length (states (atn \<sigma>1)) = length (states (atn \<sigma>))
        \<and> (\<forall>i. i \<noteq> nat (stateNumber (heap \<sigma> r)) \<longrightarrow> states (atn \<sigma>1) ! i = states (atn \<sigma>) ! i)
        \<and> heap \<sigma>1 = heap \<sigma>"
    and rng: "stateNumber (heap \<sigma> r) < int (length (states (atn \<sigma>1)))"
    if "removeState (Some r) \<sigma> = Inr \<sigma>1" for \<sigma>1
    using that by (auto simp: removeState_def Let_def split: if_splits)
  have later: "stateNumber (heap \<sigma> r) < stateNumber (heap (addState (Some r') \<sigma>2) r')
            \<and> stateNumber (heap (addState (Some r') \<sigma>2) r') = int (length (states (atn \<sigma>2)))
            \<and> length (states (atn \<sigma>)) \<le> length (states (atn \<sigma>2))"
    if rm: "removeState (Some r) \<sigma> = Inr \<sigma>1" and run: "runAll (runOp look) ops \<sigma>1 = Inr \<sigma>2"
    for \<sigma>1 look ops \<sigma>2 r'
  proof -
    from rem2 [OF rm] have len: "length (states (atn \<sigma>1)) = length (states (atn \<sigma>))" by simp
    from runOps_length [OF run, of "length (states (atn \<sigma>1))"]
    have mono: "length (states (atn \<sigma>1)) \<le> length (states (atn \<sigma>2))" by simp
    with rng [OF rm] len show ?thesis by (simp add: add1)
  qed
  show ?thesis
    using add1 add2 add3 add4 rem1 rem2 later by blast
qed

theorem state_numbers_stable_witness:
  "\<exists>\<sigma>1 \<sigma>2. removeState (Some 1) exStore = Inr \<sigma>1
      \<and> states (atn \<sigma>1) = [Some 0, None, Some 2, Some 3]
      \<and> runAll (runOp exLook) [OpAddState (Some 7), OpAddState None,
            OpQuery (QGetExpectedTokens 3 None)] \<sigma>1 = Inr \<sigma>2
      \<and> 1 < stateNumber (heap (addState (Some 8) \<sigma>2) 8)
      \<and> stateNumber (heap (addState (Some 8) \<sigma>2) 8) = int (length (states (atn \<sigma>2)))
      \<and> stateNumber (heap (addState (Some 8) exStore) 8) = 4"
proof -
  let ?ops = "[OpAddState (Some 7), OpAddState None, OpQuery (QGetExpectedTokens 3 None)]"
  have "\<exists>\<sigma>1. removeState (Some 1) exStore = Inr \<sigma>1"
    by (simp add: removeState_def exStore_def exHeap_def blankState_def NewATN_def)
  then obtain \<sigma>1 where rm: "removeState (Some 1) exStore = Inr \<sigma>1" ..
  have "\<exists>\<sigma>2. runAll (runOp exLook) ?ops \<sigma>1 = Inr \<sigma>2"
    using rm by (auto simp: ex_simps run_simps)
  then obtain \<sigma>2 where run: "runAll (runOp exLook) ?ops \<sigma>1 = Inr \<sigma>2" ..
  have n1: "stateNumber (heap exStore 1) = 1"
    by (simp add: exStore_def exHeap_def blankState_def)
  have len: "int (length (states (atn exStore))) = 4"
    by (simp add: exStore_def NewATN_def)
  from state_numbers_stable [of 1 exStore "Some 1"]
  have rem: "\<forall>\<sigma>1. removeState (Some 1) exStore = Inr \<sigma>1 \<longrightarrow>
          states (atn \<sigma>1) = (states (atn exStore))[nat (stateNumber (heap exStore 1)) := None]
        \<and> states (atn \<sigma>1) ! nat (stateNumber (heap exStore 1)) = None
        \<and> length (states (atn \<sigma>1)) = length (states (atn exStore))
        \<and> (\<forall>i. i \<noteq> nat (stateNumber (heap exStore 1)) \<longrightarrow> states (atn \<sigma>1) ! i = states (atn exStore) ! i)
        \<and> heap \<sigma>1 = heap exStore
        \<and> (\<forall>look ops \<sigma>2 r'. runAll (runOp look) ops \<sigma>1 = Inr \<sigma>2 \<longrightarrow>
              stateNumber (heap exStore 1) < stateNumber (heap (addState (Some r') \<sigma>2) r')
            \<and> stateNumber (heap (addState (Some r') \<sigma>2) r') = int (length (states (atn \<sigma>2)))
            \<and> length (states (atn exStore)) \<le> length (states (atn \<sigma>2)))"
    by (elim conjE)
  from rem [rule_format, OF rm]
  have slot: "states (atn \<sigma>1) = (states (atn exStore))[nat (stateNumber (heap exStore 1)) := None]"
    and later: "\<forall>look ops \<sigma>2 r'. runAll (runOp look) ops \<sigma>1 = Inr \<sigma>2 \<longrightarrow>
              stateNumber (heap exStore 1) < stateNumber (heap (addState (Some r') \<sigma>2) r')
            \<and> stateNumber (heap (addState (Some r') \<sigma>2) r') = int (length (states (atn \<sigma>2)))
            \<and> length (states (atn exStore)) \<le> length (states (atn \<sigma>2))"
    by blast+
  from later [rule_format, OF run, of 8] n1
  have "1 < stateNumber (heap (addState (Some 8) \<sigma>2) 8)"
    and "stateNumber (heap (addState (Some 8) \<sigma>2) 8) = int (length (states (atn \<sigma>2)))"
    by simp_all
  moreover from state_numbers_stable [of 8 exStore None] len
  have "stateNumber (heap (addState (Some 8) exStore) 8) = 4" by simp
  moreover from slot n1 have "states (atn \<sigma>1) = [Some 0, None, Some 2, Some 3]"
    by (simp add: exStore_def NewATN_def)
  ultimately show ?thesis
    using rm run by blast
qed

section \<open>Decision indices\<close>

lemma defineAll_spec:
  "\<exists>\<sigma>'. defineAll ds \<sigma> =
          Inr (map int [length (DecisionToState (atn \<sigma>))
                          ..<length (DecisionToState (atn \<sigma>)) + length ds], \<sigma>')
      \<and> DecisionToState (atn \<sigma>') = DecisionToState (atn \<sigma>) @ map Some ds
      \<and> (\<forall>r. r \<notin> set ds \<longrightarrow> heap \<sigma>' r = heap \<sigma> r)
      \<and> (distinct ds \<longrightarrow>
           (\<forall>i<length ds. decision (heap \<sigma>' (ds ! i))
                             = int (length (DecisionToState (atn \<sigma>)) + i)))"
proof (induction ds arbitrary: \<sigma>)
  case Nil
  show ?case by simp
next
  case (Cons r rs)
  let ?D = "DecisionToState (atn \<sigma>)"
  let ?\<sigma>1 = "\<sigma>\<lparr>atn := (atn \<sigma>)\<lparr>DecisionToState := ?D @ [Some r]\<rparr>,
            heap := (heap \<sigma>)(r := (heap \<sigma> r)\<lparr>decision := int (length ?D)\<rparr>)\<rparr>"
  have d1: "DecisionToState (atn ?\<sigma>1) = ?D @ [Some r]" by simp
  from Cons.IH [of ?\<sigma>1] obtain \<sigma>' where
    run: "defineAll rs ?\<sigma>1 = Inr (map int [Suc (length ?D)..<Suc (length ?D) + length rs], \<sigma>')"
    and tab: "DecisionToState (atn \<sigma>') = (?D @ [Some r]) @ map Some rs"
    and frame: "\<forall>q. q \<notin> set rs \<longrightarrow> heap \<sigma>' q = heap ?\<sigma>1 q"
    and stamp: "distinct rs \<longrightarrow>
           (\<forall>i<length rs. decision (heap \<sigma>' (rs ! i)) = int (Suc (length ?D) + i))"
    unfolding d1 by auto
  have upt: "[length ?D..<length ?D + length (r # rs)]
               = length ?D # [Suc (length ?D)..<Suc (length ?D) + length rs]"
    by (subst upt_rec) simp
  have res: "defineAll (r # rs) \<sigma> =
      Inr (map int [length ?D..<length ?D + length (r # rs)], \<sigma>')"
    unfolding upt using run by (simp add: defineDecisionState_Some)
  have tab': "DecisionToState (atn \<sigma>') = ?D @ map Some (r # rs)"
    using tab by simp
  have frame': "\<forall>q. q \<notin> set (r # rs) \<longrightarrow> heap \<sigma>' q = heap \<sigma> q"
    using frame by simp
  have stamp': "distinct (r # rs) \<longrightarrow>
      (\<forall>i<length (r # rs). decision (heap \<sigma>' ((r # rs) ! i)) = int (length ?D + i))"
  proof (intro impI allI)
    fix i
    assume dist: "distinct (r # rs)" and i: "i < length (r # rs)"
    show "decision (heap \<sigma>' ((r # rs) ! i)) = int (length ?D + i)"
    proof (cases i)
      case 0
      from dist have "r \<notin> set rs" by simp
      with frame have "heap \<sigma>' r = heap ?\<sigma>1 r" by blast
      with 0 show ?thesis by simp
    next
      case (Suc j)
      with dist i stamp show ?thesis by simp
    qed
  qed
  from res tab' frame' stamp' show ?case by blast
qed

text \<open>
  Claim C8. \<^verbatim>\<open>defineDecisionState\<close> appends the state to the decision table, stamps it
  with the index of the new entry and returns that index. \<^verbatim>\<open>getDecisionState\<close> returns
  \<^verbatim>\<open>nil\<close> while the table is empty. On a graph with an empty table, defining the states
  \<open>ds\<close> in order returns the indices \<open>0, 1, ...\<close>, and afterwards
  \<^verbatim>\<open>getDecisionState(i)\<close> is the \<open>i\<close>-th state defined, for every \<open>i\<close> below the number of
  states defined; when the states are distinct each still carries its index.
\<close>

theorem decision_indices_round_trip:
  "(\<exists>\<sigma>'. defineDecisionState (Some r) \<sigma> = Inr (int (length (DecisionToState (atn \<sigma>))), \<sigma>')
        \<and> DecisionToState (atn \<sigma>') = DecisionToState (atn \<sigma>) @ [Some r]
        \<and> decision (heap \<sigma>' r) = int (length (DecisionToState (atn \<sigma>))))
   \<and> (DecisionToState (atn \<sigma>) = [] \<longrightarrow> getDecisionState d \<sigma> = Inr None)
   \<and> (DecisionToState (atn \<sigma>) = [] \<longrightarrow>
        (\<exists>\<sigma>'. defineAll ds \<sigma> = Inr (map int [0..<length ds], \<sigma>')
            \<and> DecisionToState (atn \<sigma>') = map Some ds
            \<and> (\<forall>i<length ds. getDecisionState (int i) \<sigma>' = Inr (Some (ds ! i)))
            \<and> (distinct ds \<longrightarrow> (\<forall>i<length ds. decision (heap \<sigma>' (ds ! i)) = int i))))"
proof (intro conjI impI)
  show "\<exists>\<sigma>'. defineDecisionState (Some r) \<sigma> = Inr (int (length (DecisionToState (atn \<sigma>))), \<sigma>')
        \<and> DecisionToState (atn \<sigma>') = DecisionToState (atn \<sigma>) @ [Some r]
        \<and> decision (heap \<sigma>' r) = int (length (DecisionToState (atn \<sigma>)))"
    by (simp add: defineDecisionState_Some)
next
  assume "DecisionToState (atn \<sigma>) = []"
  then show "getDecisionState d \<sigma> = Inr None"
    by (simp add: getDecisionState_def)
next
  assume empty: "DecisionToState (atn \<sigma>) = []"
  from defineAll_spec [of ds \<sigma>] obtain \<sigma>' where
    run: "defineAll ds \<sigma> = Inr (map int [0..<length ds], \<sigma>')"
    and tab: "DecisionToState (atn \<sigma>') = map Some ds"
    and stamp: "distinct ds \<longrightarrow> (\<forall>i<length ds. decision (heap \<sigma>' (ds ! i)) = int i)"
    unfolding empty by auto
  have get: "\<forall>i<length ds. getDecisionState (int i) \<sigma>' = Inr (Some (ds ! i))"
    using tab by (auto simp: getDecisionState_def index_def)
  from run tab get stamp
  show "\<exists>\<sigma>'. defineAll ds \<sigma> = Inr (map int [0..<length ds], \<sigma>')
            \<and> DecisionToState (atn \<sigma>') = map Some ds
            \<and> (\<forall>i<length ds. getDecisionState (int i) \<sigma>' = Inr (Some (ds ! i)))
            \<and> (distinct ds \<longrightarrow> (\<forall>i<length ds. decision (heap \<sigma>' (ds ! i)) = int i))"
    by blast
qed

theorem decision_indices_round_trip_witness:
  "\<exists>\<sigma>'. defineAll [3, 0, 2] exStore = Inr ([0, 1, 2], \<sigma>')
      \<and> getDecisionState 0 \<sigma>' = Inr (Some 3)
      \<and> getDecisionState 1 \<sigma>' = Inr (Some 0)
      \<and> getDecisionState 2 \<sigma>' = Inr (Some 2)
      \<and> decision (heap \<sigma>' 2) = 2
      \<and> getDecisionState 0 exStore = Inr None"
proof -
  have empty: "DecisionToState (atn exStore) = []"
    by (simp add: exStore_def NewATN_def)
  from decision_indices_round_trip [of 0 exStore 0 "[3, 0, 2]"] empty
  obtain \<sigma>' where
    run: "defineAll [3, 0, 2] exStore = Inr (map int [0..<length [3, 0, 2::nat]], \<sigma>')"
    and get: "\<forall>i<length [3, 0, 2::nat]. getDecisionState (int i) \<sigma>' = Inr (Some ([3, 0, 2] ! i))"
    and stamp: "\<forall>i<length [3, 0, 2::nat]. decision (heap \<sigma>' ([3, 0, 2] ! i)) = int i"
    and none: "getDecisionState 0 exStore = Inr None"
    by auto
  have l: "map int [0..<length [3, 0, 2::nat]] = [0, 1, 2]"
    by (simp add: upt_conv_Cons)
  from get [rule_format, of 0] get [rule_format, of 1] get [rule_format, of 2]
  have "getDecisionState 0 \<sigma>' = Inr (Some 3)"
    and "getDecisionState 1 \<sigma>' = Inr (Some 0)"
    and "getDecisionState 2 \<sigma>' = Inr (Some 2)"
    by simp_all
  moreover from stamp [rule_format, of 2] have "decision (heap \<sigma>' 2) = 2" by simp
  ultimately show ?thesis
    using run none unfolding l by auto
qed

section \<open>The package-level sentinel\<close>

text \<open>
  Claim C9. \<^verbatim>\<open>ATNInvalidAltNumber\<close> starts at zero and no construction, mutation or
  query of \<^verbatim>\<open>atn.go\<close> assigns to it: after any run of them it is still zero.
\<close>

theorem ATNInvalidAltNumber_constant:
  "ATNInvalidAltNumber (programStart a h) = 0
   \<and> (\<forall>acts \<sigma>'. runAll (runAction look) acts (programStart a h) = Inr \<sigma>'
         \<longrightarrow> ATNInvalidAltNumber \<sigma>' = 0)
   \<and> (\<forall>acts \<sigma> \<sigma>'. runAll (runAction look) acts \<sigma> = Inr \<sigma>'
         \<longrightarrow> ATNInvalidAltNumber \<sigma>' = ATNInvalidAltNumber \<sigma>)"
proof -
  have keep: "ATNInvalidAltNumber \<sigma>' = ATNInvalidAltNumber \<sigma>"
    if "runAll (runAction look) acts \<sigma> = Inr \<sigma>'" for acts \<sigma> \<sigma>'
    by (rule runAll_invariant [where step = "runAction look"
          and P = "\<lambda>\<tau>. ATNInvalidAltNumber \<tau> = ATNInvalidAltNumber \<sigma>", OF _ that])
       (auto dest: runAction_global)
  have start: "ATNInvalidAltNumber (programStart a h) = 0"
    by (simp add: programStart_def)
  from keep start show ?thesis by metis
qed

theorem ATNInvalidAltNumber_constant_witness:
  "\<exists>\<sigma>'. runAll (runAction exLook)
            [Construct 1 10, Perform (OpAddState (Some 3)),
             Perform (OpQuery (QGetExpectedTokens 0 None)),
             Perform (OpDefineDecisionState (Some 3))]
            (programStart (NewATN 0 0) exHeap) = Inr \<sigma>'
      \<and> ATNInvalidAltNumber \<sigma>' = 0"
proof -
  let ?acts = "[Construct 1 10, Perform (OpAddState (Some 3)),
             Perform (OpQuery (QGetExpectedTokens 0 None)),
             Perform (OpDefineDecisionState (Some 3))]"
  have "\<exists>\<sigma>'. runAll (runAction exLook) ?acts (programStart (NewATN 0 0) exHeap) = Inr \<sigma>'"
    by (simp add: programStart_def ex_simps run_simps Let_def)
  then obtain \<sigma>' where
    run: "runAll (runAction exLook) ?acts (programStart (NewATN 0 0) exHeap) = Inr \<sigma>'" ..
  from ATNInvalidAltNumber_constant [of "NewATN 0 0" exHeap exLook] run
  have "ATNInvalidAltNumber \<sigma>' = 0" by blast
  with run show ?thesis by blast
qed

end
